theory Spec2Isabelle
  imports Main
begin

section \<open>Object graph of \<open>ihm/__init__.py\<close>\<close>

text \<open>
  Python objects are compared by identity in most of the traversal code, so every object
  is a reference (its \<open>id\<close>) and its attributes live in a store with one component per
  attribute.  Lists that the \<open>System\<close> owns directly are list values of the
  \<open>system\<close> record; list-like objects that are shared by reference (state groups,
  states, model groups, dataset groups, representations) have their contents in
  \<open>items\<close>, and an \<open>Assembly\<close> (a \<open>list\<close> subclass) has them in \<open>elements\<close>.
\<close>

type_synonym ref = nat

record EntityRange =
  er_entity :: ref
  er_seq_id_range :: "int \<times> int"

record AsymUnitRange =
  ar_asym :: ref
  ar_seq_id_range :: "int \<times> int"

text \<open>What an \<open>Assembly\<close> may hold: asymmetric units, entities, or ranges of them.\<close>

datatype component =
    OfAsymUnit ref
  | OfEntity ref
  | OfAsymUnitRange AsymUnitRange
  | OfEntityRange EntityRange

record heap =
  items :: "ref \<Rightarrow> ref list"
  elements :: "ref \<Rightarrow> component list"
  truthy :: "ref \<Rightarrow> bool"
  model_representation :: "ref \<Rightarrow> ref option"
  model_protocol :: "ref \<Rightarrow> ref option"
  model_assembly :: "ref \<Rightarrow> ref option"
  segment_starting_model :: "ref \<Rightarrow> ref option"
  protocol_steps :: "ref \<Rightarrow> ref list"
  protocol_analyses :: "ref \<Rightarrow> ref list"
  analysis_steps :: "ref \<Rightarrow> ref list"
  step_assembly :: "ref \<Rightarrow> ref option"
  step_dataset_group :: "ref \<Rightarrow> ref option"
  restraint_assembly :: "ref \<Rightarrow> ref option"
  restraint_dataset :: "ref \<Rightarrow> ref option"
  starting_model_templates :: "ref \<Rightarrow> ref list"
  starting_model_dataset :: "ref \<Rightarrow> ref option"
  template_dataset :: "ref \<Rightarrow> ref option"
  dataset_parents :: "ref \<Rightarrow> ref list"
  entity_sequence :: "ref \<Rightarrow> string"
  asym_entity :: "ref \<Rightarrow> ref"

record system =
  entities :: "ref list"
  asym_units :: "ref list"
  orphan_assemblies :: "ref list"
  complete_assembly :: ref
  orphan_datasets :: "ref list"
  orphan_dataset_groups :: "ref list"
  orphan_representations :: "ref list"
  orphan_starting_models :: "ref list"
  restraints :: "ref list"
  orphan_protocols :: "ref list"
  state_groups :: "ref list"

text \<open>
  The exceptions that matter here.  \<open>RecursionError\<close> is what the interpreter raises when
  the nesting of calls exceeds its recursion limit, \<open>TypeError\<close> what a call with the
  wrong number of arguments raises.  \<open>GraphCycleError\<close> is the error the specification
  names for a cyclic parent chain; no path of the source constructs it.
\<close>

datatype py_error = RecursionError | TypeError | GraphCycleError

subsection \<open>Truth value of an optional reference\<close>

text \<open>
  \<open>x for ... if x\<close> keeps \<open>x\<close> when it is truthy.  \<open>None\<close> is falsy.  An
  \<open>Assembly\<close> is a list, hence falsy when empty.  The classes of the other referenced
  objects are not part of this module; their truth value is read from the store.
\<close>

definition present :: "heap \<Rightarrow> ref option \<Rightarrow> ref list" where
  "present h v = (case v of None \<Rightarrow> [] | Some r \<Rightarrow> if truthy h r then [r] else [])"

definition present_assembly :: "heap \<Rightarrow> ref option \<Rightarrow> ref list" where
  "present_assembly h v =
     (case v of None \<Rightarrow> [] | Some r \<Rightarrow> if elements h r = [] then [] else [r])"

subsection \<open>\<open>_remove_identical\<close>\<close>

fun remove_identical_from :: "ref set \<Rightarrow> ref list \<Rightarrow> ref list" where
  "remove_identical_from seen_objs [] = []"
| "remove_identical_from seen_objs (obj # gen) =
     (if obj \<in> seen_objs then remove_identical_from seen_objs gen
      else obj # remove_identical_from (insert obj seen_objs) gen)"

definition remove_identical :: "ref list \<Rightarrow> ref list" where
  "remove_identical gen = remove_identical_from {} gen"

subsection \<open>Enumerations of \<open>System\<close>\<close>

text \<open>
  Each enumeration is given first as the list of objects that a full iteration yields.
  The frames that the iteration needs are accounted for further below, where the same
  methods are described as iterators.
\<close>

definition all_model_groups :: "heap \<Rightarrow> system \<Rightarrow> ref list" where
  "all_model_groups h s =
     concat (map (\<lambda>state_group.
       concat (map (\<lambda>state. items h state) (items h state_group))) (state_groups s))"

text \<open>
  The inner loop of \<open>_all_models\<close> for one group: \<open>seen_models\<close> starts empty for each
  group.  Models are plain objects, so membership in the dictionary is identity.
\<close>

fun models_of_group :: "ref \<Rightarrow> ref set \<Rightarrow> ref list \<Rightarrow> (ref \<times> ref) list" where
  "models_of_group grp seen_models [] = []"
| "models_of_group grp seen_models (model # rest) =
     (if model \<in> seen_models then models_of_group grp seen_models rest
      else (grp, model) # models_of_group grp (insert model seen_models) rest)"

definition all_models :: "heap \<Rightarrow> system \<Rightarrow> (ref \<times> ref) list" where
  "all_models h s =
     concat (map (\<lambda>grp. models_of_group grp {} (items h grp)) (all_model_groups h s))"

definition all_representations :: "heap \<Rightarrow> system \<Rightarrow> ref list" where
  "all_representations h s =
     remove_identical (orphan_representations s @
       concat (map (\<lambda>(grp, model). present h (model_representation h model))
                   (all_models h s)))"

definition all_segments :: "heap \<Rightarrow> system \<Rightarrow> ref list" where
  "all_segments h s =
     concat (map (\<lambda>representation. items h representation) (all_representations h s))"

definition all_starting_models :: "heap \<Rightarrow> system \<Rightarrow> ref list" where
  "all_starting_models h s =
     remove_identical (orphan_starting_models s @
       concat (map (\<lambda>segment. present h (segment_starting_model h segment))
                   (all_segments h s)))"

definition all_protocols :: "heap \<Rightarrow> system \<Rightarrow> ref list" where
  "all_protocols h s =
     remove_identical (orphan_protocols s @
       concat (map (\<lambda>(grp, model). present h (model_protocol h model))
                   (all_models h s)))"

definition all_protocol_steps :: "heap \<Rightarrow> system \<Rightarrow> ref list" where
  "all_protocol_steps h s =
     concat (map (\<lambda>protocol. protocol_steps h protocol) (all_protocols h s))"

definition all_analysis_steps :: "heap \<Rightarrow> system \<Rightarrow> ref list" where
  "all_analysis_steps h s =
     concat (map (\<lambda>protocol.
       concat (map (\<lambda>analysis. analysis_steps h analysis) (protocol_analyses h protocol)))
       (all_protocols h s))"

definition all_assemblies :: "heap \<Rightarrow> system \<Rightarrow> ref list" where
  "all_assemblies h s =
     [complete_assembly s] @
     orphan_assemblies s @
     concat (map (\<lambda>(grp, model). present_assembly h (model_assembly h model))
                 (all_models h s)) @
     concat (map (\<lambda>step. present_assembly h (step_assembly h step))
                 (all_protocol_steps h s)) @
     concat (map (\<lambda>step. present_assembly h (step_assembly h step))
                 (all_analysis_steps h s)) @
     concat (map (\<lambda>restraint. present_assembly h (restraint_assembly h restraint))
                 (restraints s))"

definition all_dataset_groups :: "heap \<Rightarrow> system \<Rightarrow> ref list" where
  "all_dataset_groups h s =
     orphan_dataset_groups s @
     concat (map (\<lambda>step. present h (step_dataset_group h step)) (all_protocol_steps h s)) @
     concat (map (\<lambda>step. present h (step_dataset_group h step)) (all_analysis_steps h s))"

definition all_templates :: "heap \<Rightarrow> system \<Rightarrow> ref list" where
  "all_templates h s =
     concat (map (\<lambda>startmodel. starting_model_templates h startmodel)
                 (all_starting_models h s))"

definition all_datasets_except_parents :: "heap \<Rightarrow> system \<Rightarrow> ref list" where
  "all_datasets_except_parents h s =
     orphan_datasets s @
     concat (map (\<lambda>dg. items h dg) (all_dataset_groups h s)) @
     concat (map (\<lambda>sm. present h (starting_model_dataset h sm)) (all_starting_models h s)) @
     concat (map (\<lambda>restraint. present h (restraint_dataset h restraint)) (restraints s)) @
     concat (map (\<lambda>template. present h (template_dataset h template)) (all_templates h s))"

subsection \<open>Generators and the frames they need\<close>

text \<open>
  The enumerations above are what a full iteration yields.  The methods of \<open>System\<close>
  are generators, generator expressions and methods that return such iterators, and
  \<open>_all_datasets\<close> recurses through them, so the interpreter's recursion limit decides
  whether an iteration gets to its end.  A Python frame is in use for every call of a
  Python function that is in progress and for every generator that is being resumed;
  \<open>itertools.chain\<close> and the iterators of lists are not Python frames.

  An iterator is described by what a consumer gets that iterates it to the end from a
  frame above which \<open>limit\<close> more frames are allowed: the objects yielded and, when the
  iteration raised, the exception that ended it.  What was yielded before the exception
  has already reached the consumer.
\<close>

type_synonym 'a yielded = "'a list \<times> py_error option"

type_synonym 'a iterator = "nat \<Rightarrow> 'a yielded"

text \<open>A list, and \<open>itertools.chain\<close> of two iterators.\<close>

definition iter_list :: "'a list \<Rightarrow> 'a iterator" where
  "iter_list xs = (\<lambda>limit. (xs, None))"

definition itertools_chain :: "'a iterator \<Rightarrow> 'a iterator \<Rightarrow> 'a iterator" where
  "itertools_chain a b =
     (\<lambda>limit. case a limit of
        (xs, Some e) \<Rightarrow> (xs, Some e)
      | (xs, None) \<Rightarrow> (case b limit of (ys, r) \<Rightarrow> (xs @ ys, r)))"

text \<open>
  The body of a generator function or of a generator expression runs in a frame of its
  own: with none left, resuming it raises \<open>RecursionError\<close>; otherwise what the body
  iterates has one frame less.
\<close>

definition generator :: "'a iterator \<Rightarrow> 'a iterator" where
  "generator body =
     (\<lambda>limit. case limit of 0 \<Rightarrow> ([], Some RecursionError) | Suc n \<Rightarrow> body n)"

text \<open>
  \<open>for x in src: for y in f(x): yield y\<close>, within one frame: one sub-iterator per
  element, in order, until one of them or the source raises.
\<close>

fun yield_from_each ::
  "('a \<Rightarrow> 'b list \<times> py_error option) \<Rightarrow> 'a list \<Rightarrow> 'b list \<times> py_error option" where
  "yield_from_each f [] = ([], None)"
| "yield_from_each f (x # xs) =
     (case f x of
        (ys, Some e) \<Rightarrow> (ys, Some e)
      | (ys, None) \<Rightarrow> (case yield_from_each f xs of (zs, r) \<Rightarrow> (ys @ zs, r)))"

definition for_each :: "'a iterator \<Rightarrow> ('a \<Rightarrow> 'b iterator) \<Rightarrow> 'b iterator" where
  "for_each src body =
     (\<lambda>limit. case src limit of
        (xs, e) \<Rightarrow>
          (case yield_from_each (\<lambda>x. body x limit) xs of
             (ys, Some err) \<Rightarrow> (ys, Some err)
           | (ys, None) \<Rightarrow> (ys, e)))"

text \<open>The generator \<open>_remove_identical(gen)\<close>.\<close>

definition remove_identical_gen :: "ref iterator \<Rightarrow> ref iterator" where
  "remove_identical_gen gen =
     generator (\<lambda>limit. case gen limit of (objs, e) \<Rightarrow> (remove_identical objs, e))"

text \<open>
  A method that returns an iterator: its body runs in a frame while the iterator is put
  together, and may call further methods there; the iterator is consumed later, by
  whoever holds it.  \<open>call limit m\<close> is the call from a frame above which \<open>limit\<close>
  frames are allowed, and \<open>call_and_iterate m\<close> is \<open>for x in self.m()\<close>.
\<close>

type_synonym 'a py_method = "nat \<Rightarrow> py_error + 'a iterator"

definition call :: "nat \<Rightarrow> 'a py_method \<Rightarrow> py_error + 'a iterator" where
  "call limit m = (case limit of 0 \<Rightarrow> Inl RecursionError | Suc n \<Rightarrow> m n)"

definition call_and_iterate :: "'a py_method \<Rightarrow> 'a iterator" where
  "call_and_iterate m =
     (\<lambda>limit. case call limit m of Inl e \<Rightarrow> ([], Some e) | Inr it \<Rightarrow> it limit)"

text \<open>The methods of \<open>System\<close> again, as the iterators they are.\<close>

definition all_model_groups_gen :: "heap \<Rightarrow> system \<Rightarrow> ref iterator" where
  "all_model_groups_gen h s =
     generator
       (for_each (iter_list (state_groups s)) (\<lambda>state_group.
          for_each (iter_list (items h state_group)) (\<lambda>state.
            iter_list (items h state))))"

definition all_models_gen :: "heap \<Rightarrow> system \<Rightarrow> (ref \<times> ref) iterator" where
  "all_models_gen h s =
     generator
       (for_each (all_model_groups_gen h s) (\<lambda>grp.
          iter_list (models_of_group grp {} (items h grp))))"

definition all_representations_method :: "heap \<Rightarrow> system \<Rightarrow> ref py_method" where
  "all_representations_method h s =
     (\<lambda>limit. Inr (remove_identical_gen
        (itertools_chain (iter_list (orphan_representations s))
           (generator (for_each (all_models_gen h s) (\<lambda>(grp, model).
              iter_list (present h (model_representation h model))))))))"

definition all_segments_gen :: "heap \<Rightarrow> system \<Rightarrow> ref iterator" where
  "all_segments_gen h s =
     generator
       (for_each (call_and_iterate (all_representations_method h s)) (\<lambda>representation.
          iter_list (items h representation)))"

definition all_starting_models_method :: "heap \<Rightarrow> system \<Rightarrow> ref py_method" where
  "all_starting_models_method h s =
     (\<lambda>limit. Inr (remove_identical_gen
        (itertools_chain (iter_list (orphan_starting_models s))
           (generator (for_each (all_segments_gen h s) (\<lambda>segment.
              iter_list (present h (segment_starting_model h segment))))))))"

definition all_protocols_method :: "heap \<Rightarrow> system \<Rightarrow> ref py_method" where
  "all_protocols_method h s =
     (\<lambda>limit. Inr (remove_identical_gen
        (itertools_chain (iter_list (orphan_protocols s))
           (generator (for_each (all_models_gen h s) (\<lambda>(grp, model).
              iter_list (present h (model_protocol h model))))))))"

definition all_protocol_steps_gen :: "heap \<Rightarrow> system \<Rightarrow> ref iterator" where
  "all_protocol_steps_gen h s =
     generator
       (for_each (call_and_iterate (all_protocols_method h s)) (\<lambda>protocol.
          iter_list (protocol_steps h protocol)))"

definition all_analysis_steps_gen :: "heap \<Rightarrow> system \<Rightarrow> ref iterator" where
  "all_analysis_steps_gen h s =
     generator
       (for_each (call_and_iterate (all_protocols_method h s)) (\<lambda>protocol.
          for_each (iter_list (protocol_analyses h protocol)) (\<lambda>analysis.
            iter_list (analysis_steps h analysis))))"

definition all_dataset_groups_method :: "heap \<Rightarrow> system \<Rightarrow> ref py_method" where
  "all_dataset_groups_method h s =
     (\<lambda>limit. Inr
        (itertools_chain (iter_list (orphan_dataset_groups s))
        (itertools_chain
           (generator (for_each (all_protocol_steps_gen h s) (\<lambda>step.
              iter_list (present h (step_dataset_group h step)))))
           (generator (for_each (all_analysis_steps_gen h s) (\<lambda>step.
              iter_list (present h (step_dataset_group h step))))))))"

definition all_templates_gen :: "heap \<Rightarrow> system \<Rightarrow> ref iterator" where
  "all_templates_gen h s =
     generator
       (for_each (call_and_iterate (all_starting_models_method h s)) (\<lambda>startmodel.
          iter_list (starting_model_templates h startmodel)))"

text \<open>The local generator \<open>_all_datasets_in_groups\<close>.\<close>

definition all_datasets_in_groups :: "heap \<Rightarrow> system \<Rightarrow> ref iterator" where
  "all_datasets_in_groups h s =
     generator
       (for_each (call_and_iterate (all_dataset_groups_method h s)) (\<lambda>dg.
          iter_list (items h dg)))"

text \<open>
  \<open>_all_datasets_except_parents\<close> as the method it is.  The first iterable of a generator
  expression is evaluated where the expression stands, so \<open>self._all_starting_models()\<close>
  is called while the method itself is still running.
\<close>

definition all_datasets_except_parents_method :: "heap \<Rightarrow> system \<Rightarrow> ref py_method" where
  "all_datasets_except_parents_method h s =
     (\<lambda>limit. case call limit (all_starting_models_method h s) of
        Inl e \<Rightarrow> Inl e
      | Inr starting_models \<Rightarrow> Inr
          (itertools_chain (iter_list (orphan_datasets s))
          (itertools_chain (all_datasets_in_groups h s)
          (itertools_chain
             (generator (for_each starting_models (\<lambda>sm.
                iter_list (present h (starting_model_dataset h sm)))))
          (itertools_chain
             (generator (for_each (iter_list (restraints s)) (\<lambda>restraint.
                iter_list (present h (restraint_dataset h restraint)))))
             (generator (for_each (all_templates_gen h s) (\<lambda>template.
                iter_list (present h (template_dataset h template))))))))))"

text \<open>
  The nested generator \<open>_all_datasets_and_parents\<close>.  Each level of the parent chain is
  one more nested generator frame, and a call with none left raises \<open>RecursionError\<close>.
  The source has no other exit from a chain that does not end.
\<close>

fun all_datasets_and_parents :: "nat \<Rightarrow> heap \<Rightarrow> ref \<Rightarrow> ref list \<times> py_error option" where
  "all_datasets_and_parents 0 h d = ([], Some RecursionError)"
| "all_datasets_and_parents (Suc limit) h d =
     (case yield_from_each (\<lambda>p. all_datasets_and_parents limit h p) (dataset_parents h d) of
        (ys, Some e) \<Rightarrow> (ys, Some e)
      | (ys, None) \<Rightarrow> (ys @ [d], None))"

text \<open>
  The body of \<open>_all_datasets\<close>, run in a frame above which \<open>limit\<close> more frames are
  allowed.
\<close>

definition all_datasets :: "nat \<Rightarrow> heap \<Rightarrow> system \<Rightarrow> ref list \<times> py_error option" where
  "all_datasets limit h s =
     for_each (call_and_iterate (all_datasets_except_parents_method h s))
              (\<lambda>d n. all_datasets_and_parents n h d) limit"

subsection \<open>\<open>_make_complete_assembly\<close>\<close>

text \<open>
  \<open>seen_entities\<close> is a dictionary keyed by \<open>Entity\<close> objects, whose \<open>__eq__\<close> and
  \<open>__hash__\<close> look at the sequence only: a key is found when an entity with an equal
  sequence was stored.  The dictionary is therefore the set of stored sequences.
\<close>

fun include_asym_units ::
  "heap \<Rightarrow> ref list \<Rightarrow> component list \<times> string set \<Rightarrow> component list \<times> string set" where
  "include_asym_units h [] (assembly, seen_entities) = (assembly, seen_entities)"
| "include_asym_units h (asym_unit # rest) (assembly, seen_entities) =
     include_asym_units h rest
       (assembly @ [OfAsymUnit asym_unit],
        insert (entity_sequence h (asym_entity h asym_unit)) seen_entities)"

fun add_entities ::
  "heap \<Rightarrow> string set \<Rightarrow> ref list \<Rightarrow> component list \<Rightarrow> component list" where
  "add_entities h seen_entities [] assembly = assembly"
| "add_entities h seen_entities (entity # rest) assembly =
     add_entities h seen_entities rest
       (if entity_sequence h entity \<notin> seen_entities then assembly @ [OfEntity entity]
        else assembly)"

definition make_complete_assembly :: "heap \<Rightarrow> system \<Rightarrow> heap" where
  "make_complete_assembly h s =
     (case include_asym_units h (asym_units s) ([], {}) of
        (assembly, seen_entities) \<Rightarrow>
          h\<lparr>elements := (elements h)
               (complete_assembly s := add_entities h seen_entities (entities s) assembly)\<rparr>)"

subsection \<open>Ranges\<close>

text \<open>
  \<open>Entity.seq_id_range\<close> and \<open>AsymUnit.seq_id_range\<close> are \<open>(1, len(sequence))\<close>.
  The constructors of the range classes store the bounds they are given; reading
  \<open>seq_id_range\<close> of a range returns the stored pair.
\<close>

definition Entity_seq_id_range :: "heap \<Rightarrow> ref \<Rightarrow> int \<times> int" where
  "Entity_seq_id_range h self = (1, int (length (entity_sequence h self)))"

definition AsymUnit_seq_id_range :: "heap \<Rightarrow> ref \<Rightarrow> int \<times> int" where
  "AsymUnit_seq_id_range h self =
     (1, int (length (entity_sequence h (asym_entity h self))))"

definition EntityRange_init :: "ref \<Rightarrow> int \<Rightarrow> int \<Rightarrow> EntityRange" where
  "EntityRange_init entity seq_id_begin seq_id_end =
     \<lparr>er_entity = entity, er_seq_id_range = (seq_id_begin, seq_id_end)\<rparr>"

definition AsymUnitRange_init :: "ref \<Rightarrow> int \<Rightarrow> int \<Rightarrow> AsymUnitRange" where
  "AsymUnitRange_init asym_unit seq_id_begin seq_id_end =
     \<lparr>ar_asym = asym_unit, ar_seq_id_range = (seq_id_begin, seq_id_end)\<rparr>"

definition Entity_call :: "ref \<Rightarrow> int \<Rightarrow> int \<Rightarrow> EntityRange" where
  "Entity_call self seq_id_begin seq_id_end = EntityRange_init self seq_id_begin seq_id_end"

definition AsymUnit_call :: "ref \<Rightarrow> int \<Rightarrow> int \<Rightarrow> AsymUnitRange" where
  "AsymUnit_call self seq_id_begin seq_id_end =
     AsymUnitRange_init self seq_id_begin seq_id_end"

section \<open>Reading: \<open>ihm/reader.py\<close>\<close>

text \<open>
  Objects made while reading are instances whose class is chosen by the caller, so an
  object is its attribute dictionary.  A new object gets the next free reference.  The
  list that an \<open>_IDMapper\<close> appends to is the very list object held by the
  \<open>System\<close>; it is named by a reference into \<open>lists\<close>, and the mapper only
  keeps that reference.  \<open>constructed\<close> counts the constructor calls that have returned.
\<close>

datatype pyval = PyNone | PyStr string | PyInt int | PyRef ref

type_synonym pyobj = "string \<rightharpoonup> pyval"

record world =
  objects :: "pyobj list"
  lists :: "ref \<Rightarrow> ref list"
  constructed :: nat

record IDMapper =
  system_list :: ref
  obj_by_id :: "pyval \<rightharpoonup> ref"

text \<open>A class is called with the argument tuple and returns the instance or raises.\<close>

type_synonym constructor = "pyval list \<Rightarrow> py_error + pyobj"

definition IDMapper_init :: "ref \<Rightarrow> IDMapper" where
  "IDMapper_init sl = \<lparr>system_list = sl, obj_by_id = Map.empty\<rparr>"

definition make_new ::
  "IDMapper \<Rightarrow> constructor \<Rightarrow> pyval \<Rightarrow> pyval list \<Rightarrow> world
     \<Rightarrow> py_error + (ref \<times> IDMapper \<times> world)" where
  "make_new self cls objid initargs w =
     (case obj_by_id self objid of
        Some obj \<Rightarrow> Inr (obj, self, w)
      | None \<Rightarrow>
          (case cls initargs of
             Inl e \<Rightarrow> Inl e
           | Inr inst \<Rightarrow>
               (let newobj = length (objects w)
                in Inr (newobj,
                        self\<lparr>obj_by_id := (obj_by_id self)(objid \<mapsto> newobj)\<rparr>,
                        w\<lparr>objects := objects w @ [inst(''_id'' \<mapsto> objid)],
                          lists := (lists w)
                            (system_list self := lists w (system_list self) @ [newobj]),
                          constructed := Suc (constructed w)\<rparr>))))"

text \<open>Further calls on the same mapper during the session, each with its own arguments.\<close>

fun make_new_each ::
  "IDMapper \<Rightarrow> (constructor \<times> pyval \<times> pyval list) list \<Rightarrow> world
     \<Rightarrow> py_error + (IDMapper \<times> world)" where
  "make_new_each self [] w = Inr (self, w)"
| "make_new_each self ((cls, objid, initargs) # calls) w =
     (case make_new self cls objid initargs w of
        Inl e \<Rightarrow> Inl e
      | Inr (obj, self', w') \<Rightarrow> make_new_each self' calls w')"

subsection \<open>\<open>_Handler._copy_if_present\<close>\<close>

text \<open>
  \<open>data\<close> is the record of one row: a dictionary from field name to value.
  \<open>mapkeys\<close> is given as its items, in iteration order.
\<close>

fun copy_keys :: "pyobj \<Rightarrow> (string \<rightharpoonup> pyval) \<Rightarrow> string list \<Rightarrow> pyobj" where
  "copy_keys obj data [] = obj"
| "copy_keys obj data (key # keys) =
     copy_keys (case data key of Some v \<Rightarrow> obj(key \<mapsto> v) | None \<Rightarrow> obj) data keys"

fun copy_mapkeys ::
  "pyobj \<Rightarrow> (string \<rightharpoonup> pyval) \<Rightarrow> (string \<times> string) list \<Rightarrow> pyobj" where
  "copy_mapkeys obj data [] = obj"
| "copy_mapkeys obj data ((key, val) # mapkeys) =
     copy_mapkeys (case data key of Some v \<Rightarrow> obj(val \<mapsto> v) | None \<Rightarrow> obj) data mapkeys"

definition copy_if_present ::
  "pyobj \<Rightarrow> (string \<rightharpoonup> pyval) \<Rightarrow> string list \<Rightarrow> (string \<times> string) list \<Rightarrow> pyobj" where
  "copy_if_present obj data keys mapkeys = copy_mapkeys (copy_keys obj data keys) data mapkeys"

section \<open>Initial objects and the objects of the test suite\<close>

text \<open>
  A store in which nothing has been set yet, and \<open>System.__init__\<close>: every list empty,
  \<open>complete_assembly\<close> a fresh, empty \<open>Assembly\<close>.
\<close>

definition empty_heap :: heap where
  "empty_heap =
     \<lparr>items = (\<lambda>_. []), elements = (\<lambda>_. []), truthy = (\<lambda>_. True),
      model_representation = (\<lambda>_. None), model_protocol = (\<lambda>_. None),
      model_assembly = (\<lambda>_. None), segment_starting_model = (\<lambda>_. None),
      protocol_steps = (\<lambda>_. []), protocol_analyses = (\<lambda>_. []),
      analysis_steps = (\<lambda>_. []), step_assembly = (\<lambda>_. None),
      step_dataset_group = (\<lambda>_. None), restraint_assembly = (\<lambda>_. None),
      restraint_dataset = (\<lambda>_. None), starting_model_templates = (\<lambda>_. []),
      starting_model_dataset = (\<lambda>_. None), template_dataset = (\<lambda>_. None),
      dataset_parents = (\<lambda>_. []), entity_sequence = (\<lambda>_. []),
      asym_entity = (\<lambda>_. 0)\<rparr>"

definition System_init :: "ref \<Rightarrow> system" where
  "System_init new_assembly =
     \<lparr>entities = [], asym_units = [], orphan_assemblies = [],
      complete_assembly = new_assembly,
      orphan_datasets = [], orphan_dataset_groups = [], orphan_representations = [],
      orphan_starting_models = [], restraints = [], orphan_protocols = [],
      state_groups = []\<rparr>"

definition empty_world :: world where
  "empty_world = \<lparr>objects = [], lists = (\<lambda>_. []), constructed = 0\<rparr>"

text \<open>\<open>MockObject\<close> of \<open>test_id_mapper\<close>, with \<open>__init__(self, x, y)\<close>.\<close>

definition MockObject :: constructor where
  "MockObject initargs =
     (case initargs of
        [x, y] \<Rightarrow> Inr [''x'' \<mapsto> x, ''y'' \<mapsto> y]
      | _ \<Rightarrow> Inl TypeError)"

text \<open>
  \<open>Software.__init__(self, name, classification, description, location,
  type='program', version=None)\<close>, called with positional arguments only.
\<close>

definition Software_attrs ::
  "pyval \<Rightarrow> pyval \<Rightarrow> pyval \<Rightarrow> pyval \<Rightarrow> pyval \<Rightarrow> pyval \<Rightarrow> pyobj" where
  "Software_attrs name classification description location software_type version =
     [''name'' \<mapsto> name, ''classification'' \<mapsto> classification,
      ''description'' \<mapsto> description, ''location'' \<mapsto> location,
      ''type'' \<mapsto> software_type, ''version'' \<mapsto> version]"

definition Software :: constructor where
  "Software initargs =
     (case initargs of
        [name, classification, description, location] \<Rightarrow>
          Inr (Software_attrs name classification description location
                 (PyStr ''program'') PyNone)
      | [name, classification, description, location, software_type] \<Rightarrow>
          Inr (Software_attrs name classification description location software_type PyNone)
      | [name, classification, description, location, software_type, version] \<Rightarrow>
          Inr (Software_attrs name classification description location software_type version)
      | _ \<Rightarrow> Inl TypeError)"

section \<open>Parent chains of datasets\<close>

text \<open>
  \<open>parent_chain h d path\<close>: \<open>path\<close> starts at a parent of \<open>d\<close> and each of its
  elements is a parent of the one before.
\<close>

fun parent_chain :: "heap \<Rightarrow> ref \<Rightarrow> ref list \<Rightarrow> bool" where
  "parent_chain h d [] = True"
| "parent_chain h d (p # ps) = (p \<in> set (dataset_parents h d) \<and> parent_chain h p ps)"

section \<open>What the enumerations are meant to produce\<close>

text \<open>
  The words of the specification for a chained, deduplicated enumeration, written without
  reference to the code: \<open>not_None\<close> leaves out the \<open>None\<close> references and
  \<open>first_occurrences\<close> keeps, of every object, the first occurrence only.
\<close>

fun not_None :: "ref option list \<Rightarrow> ref list" where
  "not_None [] = []"
| "not_None (None # refs) = not_None refs"
| "not_None (Some p # refs) = p # not_None refs"

fun first_occurrences :: "ref list \<Rightarrow> ref list" where
  "first_occurrences [] = []"
| "first_occurrences (x # xs) = x # first_occurrences (filter (\<lambda>y. y \<noteq> x) xs)"

section \<open>Relating an iterator to the list it is meant to yield\<close>

text \<open>
  \<open>refines k it xs\<close>: with \<open>k\<close> frames or more the iterator yields exactly \<open>xs\<close>;
  whenever it gets to its end it has yielded \<open>xs\<close>; and the only exception that ends it
  early is \<open>RecursionError\<close>.
\<close>

definition refines :: "nat \<Rightarrow> 'a iterator \<Rightarrow> 'a list \<Rightarrow> bool" where
  "refines k it xs =
     (\<forall>n. (k \<le> n \<longrightarrow> it n = (xs, None)) \<and>
          (snd (it n) = None \<longrightarrow> fst (it n) = xs) \<and>
          (snd (it n) = None \<or> snd (it n) = Some RecursionError))"

text \<open>
  \<open>parents_first h seen ds\<close>: every dataset of \<open>ds\<close> comes after all of its parents,
  where the datasets of \<open>seen\<close> count as having come before.
\<close>

fun parents_first :: "heap \<Rightarrow> ref set \<Rightarrow> ref list \<Rightarrow> bool" where
  "parents_first h seen [] = True"
| "parents_first h seen (d # ds) =
     (set (dataset_parents h d) \<subseteq> seen \<and> parents_first h (insert d seen) ds)"

section \<open>Deduplication by identity\<close>

lemma remove_identical_from_set:
  "set (remove_identical_from seen_objs gen) = set gen - seen_objs"
  by (induction gen arbitrary: seen_objs) auto

lemma remove_identical_from_distinct: "distinct (remove_identical_from seen_objs gen)"
  by (induction gen arbitrary: seen_objs) (auto simp: remove_identical_from_set)

lemma remove_identical_set: "set (remove_identical gen) = set gen"
  by (simp add: remove_identical_def remove_identical_from_set)

lemma remove_identical_distinct: "distinct (remove_identical gen)"
  by (simp add: remove_identical_def remove_identical_from_distinct)

lemma remove_identical_from_append:
  "remove_identical_from seen_objs (xs @ ys) =
     remove_identical_from seen_objs xs @ remove_identical_from (seen_objs \<union> set xs) ys"
proof (induction xs arbitrary: seen_objs)
  case Nil
  show ?case by simp
next
  case (Cons x xs)
  have "insert x (seen_objs \<union> set xs) = insert x seen_objs \<union> set xs" by simp
  moreover have "x \<in> seen_objs \<Longrightarrow> insert x (seen_objs \<union> set xs) = seen_objs \<union> set xs"
    by auto
  ultimately show ?case using Cons.IH by simp
qed

text \<open>The first occurrence is the one that is kept.\<close>

lemma remove_identical_first:
  "x \<notin> set xs \<Longrightarrow>
   remove_identical (xs @ x # ys) = remove_identical xs @ x # remove_identical_from (insert x (set xs)) ys"
  by (simp add: remove_identical_def remove_identical_from_append)

lemma models_of_group_models:
  "map snd (models_of_group grp seen_models ms) = remove_identical_from seen_models ms"
  by (induction ms arbitrary: seen_models) auto

lemma models_of_group_group:
  "(g, m) \<in> set (models_of_group grp seen_models ms) \<Longrightarrow> g = grp"
  by (induction ms arbitrary: seen_models) (auto split: if_splits)

section \<open>Model enumeration\<close>

text \<open>Each group contributes its own models without repeats, whatever other groups hold.\<close>

lemma all_models_per_group:
  "map snd (all_models h s) =
     concat (map (\<lambda>grp. remove_identical (items h grp)) (all_model_groups h s))"
  by (simp add: all_models_def map_concat comp_def models_of_group_models
        remove_identical_def)

text \<open>
  Claim C4.  Models are deduplicated inside each model group and not across groups: when
  the only state holds the groups \<open>g1 = [m1, m2, m1]\<close> and \<open>g2 = [m1, m1]\<close>,
  \<open>_all_models\<close> yields \<open>m1, m2\<close> for \<open>g1\<close> and \<open>m1\<close> for \<open>g2\<close>, so
  the models listed across the groups are \<open>[m1, m2, m1]\<close>.
\<close>

theorem all_models_dedup_scope:
  assumes "state_groups s = [sg]" and "items h sg = [st]" and "items h st = [g1, g2]"
    and "items h g1 = [m1, m2, m1]" and "items h g2 = [m1, m1]" and "m1 \<noteq> m2"
  shows "all_models h s = [(g1, m1), (g1, m2), (g2, m1)] \<and>
         map snd (all_models h s) = [m1, m2, m1]"
  using assms by (simp add: all_models_def all_model_groups_def)

theorem all_models_dedup_scope_witness:
  "all_models
     (empty_heap\<lparr>items := (\<lambda>_. [])(30 := [20], 20 := [10, 11], 10 := [1, 2, 1], 11 := [1, 1])\<rparr>)
     ((System_init 0)\<lparr>state_groups := [30]\<rparr>) = [(10, 1), (10, 2), (11, 1)] \<and>
   map snd (all_models
     (empty_heap\<lparr>items := (\<lambda>_. [])(30 := [20], 20 := [10, 11], 10 := [1, 2, 1], 11 := [1, 1])\<rparr>)
     ((System_init 0)\<lparr>state_groups := [30]\<rparr>)) = [1, 2, 1]"
  using all_models_dedup_scope [of "(System_init 0)\<lparr>state_groups := [30]\<rparr>" 30
     "empty_heap\<lparr>items := (\<lambda>_. [])(30 := [20], 20 := [10, 11], 10 := [1, 2, 1], 11 := [1, 1])\<rparr>"
     20 10 11 1 2]
  by (simp add: System_init_def empty_heap_def)

section \<open>Protocol enumeration\<close>

lemma all_protocols_distinct: "distinct (all_protocols h s)"
  by (simp add: all_protocols_def remove_identical_distinct)

lemma all_protocols_orphans_first:
  "\<exists>rest. all_protocols h s = remove_identical (orphan_protocols s) @ rest"
  by (simp add: all_protocols_def remove_identical_def remove_identical_from_append)

text \<open>The loop of \<open>_remove_identical\<close> keeps the first occurrences.\<close>

lemma remove_identical_from_first_occurrences:
  "remove_identical_from seen_objs gen =
     first_occurrences (filter (\<lambda>obj. obj \<notin> seen_objs) gen)"
proof (induction gen arbitrary: seen_objs)
  case Nil
  show ?case by simp
next
  case (Cons obj gen)
  have "filter (\<lambda>y. y \<noteq> obj) (filter (\<lambda>y. y \<notin> seen_objs) gen) =
        filter (\<lambda>y. y \<notin> insert obj seen_objs) gen"
    by (simp add: conj_commute)
  with Cons.IH show ?case by simp
qed

lemma remove_identical_first_occurrences: "remove_identical gen = first_occurrences gen"
  by (simp add: remove_identical_def remove_identical_from_first_occurrences)

text \<open>The generator expression over the models yields the protocols that are not \<open>None\<close>.\<close>

lemma model_protocols_not_None:
  "\<forall>p. Some p \<in> set (map (\<lambda>(grp, model). model_protocol h model) ms) \<longrightarrow> truthy h p \<Longrightarrow>
   concat (map (\<lambda>(grp, model). present h (model_protocol h model)) ms) =
     not_None (map (\<lambda>(grp, model). model_protocol h model) ms)"
proof (induction ms)
  case Nil
  show ?case by simp
next
  case (Cons m ms)
  obtain grp model where m: "m = (grp, model)" by (cases m)
  have rest: "concat (map (\<lambda>(grp, model). present h (model_protocol h model)) ms) =
              not_None (map (\<lambda>(grp, model). model_protocol h model) ms)"
    using Cons.prems by (intro Cons.IH) simp
  show ?case
  proof (cases "model_protocol h model")
    case None
    with m rest show ?thesis by (simp add: present_def)
  next
    case (Some p)
    with m Cons.prems have "truthy h p" by simp
    with m Some rest show ?thesis by (simp add: present_def)
  qed
qed

text \<open>
  Claim C5.  \<open>_all_protocols\<close> chains the orphan protocols before the protocols that the
  enumerated models refer to (\<open>refs\<close>, in the order of the models), leaves out \<open>None\<close>
  and keeps the first occurrence of each object.  In particular, with the orphans
  \<open>[p1, p2]\<close> and models referring to \<open>None\<close>, \<open>p2\<close> and \<open>p1\<close>, the
  enumeration is \<open>[p1, p2]\<close>.  Protocols are plain objects, hence truthy.
\<close>

theorem all_protocols_dedup:
  assumes "map (\<lambda>(grp, model). model_protocol h model) (all_models h s) = refs"
    and "\<forall>p. Some p \<in> set refs \<longrightarrow> truthy h p"
  shows "all_protocols h s = first_occurrences (orphan_protocols s @ not_None refs) \<and>
         (orphan_protocols s = [p1, p2] \<and> refs = [None, Some p2, Some p1] \<and> p1 \<noteq> p2
            \<longrightarrow> all_protocols h s = [p1, p2])"
proof -
  have "concat (map (\<lambda>(grp, model). present h (model_protocol h model)) (all_models h s)) =
        not_None (map (\<lambda>(grp, model). model_protocol h model) (all_models h s))"
    using assms by (intro model_protocols_not_None) simp
  with assms(1)
  have eq: "all_protocols h s = first_occurrences (orphan_protocols s @ not_None refs)"
    by (simp add: all_protocols_def remove_identical_first_occurrences)
  then show ?thesis by auto
qed

text \<open>
  The theorem on the example of the claim, and on \<open>test_all_protocols\<close>, where \<open>p1\<close> is
  the only orphan and \<open>p2\<close> is enumerated because the second model refers to it.
\<close>

theorem all_protocols_dedup_witness:
  "all_protocols
     (empty_heap\<lparr>items := (\<lambda>_. [])(30 := [20], 20 := [10], 10 := [1, 2, 3]),
                 model_protocol := (\<lambda>_. None)(2 := Some 42, 3 := Some 41)\<rparr>)
     ((System_init 0)\<lparr>orphan_protocols := [41, 42], state_groups := [30]\<rparr>) = [41, 42] \<and>
   all_protocols
     (empty_heap\<lparr>items := (\<lambda>_. [])(30 := [20], 20 := [10], 10 := [1, 2, 3]),
                 model_protocol := (\<lambda>_. None)(2 := Some 42, 3 := Some 41)\<rparr>)
     ((System_init 0)\<lparr>orphan_protocols := [41], state_groups := [30]\<rparr>) = [41, 42]"
  using all_protocols_dedup [of
     "empty_heap\<lparr>items := (\<lambda>_. [])(30 := [20], 20 := [10], 10 := [1, 2, 3]),
                 model_protocol := (\<lambda>_. None)(2 := Some 42, 3 := Some 41)\<rparr>"
     "(System_init 0)\<lparr>orphan_protocols := [41, 42], state_groups := [30]\<rparr>"
     "[None, Some 42, Some 41]" 41 42]
    all_protocols_dedup [of
     "empty_heap\<lparr>items := (\<lambda>_. [])(30 := [20], 20 := [10], 10 := [1, 2, 3]),
                 model_protocol := (\<lambda>_. None)(2 := Some 42, 3 := Some 41)\<rparr>"
     "(System_init 0)\<lparr>orphan_protocols := [41], state_groups := [30]\<rparr>"
     "[None, Some 42, Some 41]" 41 42]
  by (simp add: System_init_def empty_heap_def all_models_def all_model_groups_def)

section \<open>Assembly enumeration\<close>

text \<open>
  Claim C7.  Whatever the store and the system hold, the enumeration of assemblies is not
  empty and its first element is the system's complete assembly.
\<close>

theorem all_assemblies_first:
  "all_assemblies h s \<noteq> [] \<and> hd (all_assemblies h s) = complete_assembly s"
  by (simp add: all_assemblies_def)

section \<open>The complete assembly\<close>

lemma include_asym_units_result:
  "include_asym_units h asyms (assembly, seen) =
     (assembly @ map OfAsymUnit asyms,
      seen \<union> (\<lambda>a. entity_sequence h (asym_entity h a)) ` set asyms)"
  by (induction asyms arbitrary: assembly seen) auto

lemma add_entities_result:
  "add_entities h seen ents assembly =
     assembly @ map OfEntity (filter (\<lambda>e. entity_sequence h e \<notin> seen) ents)"
  by (induction ents arbitrary: assembly) auto

lemma make_complete_assembly_elements:
  "elements (make_complete_assembly h s) (complete_assembly s) =
     map OfAsymUnit (asym_units s) @
     map OfEntity (filter (\<lambda>e. entity_sequence h e \<notin>
                        (\<lambda>a. entity_sequence h (asym_entity h a)) ` set (asym_units s))
                     (entities s))"
  by (simp add: make_complete_assembly_def include_asym_units_result add_entities_result)

lemma make_complete_assembly_idempotent:
  "make_complete_assembly (make_complete_assembly h s) s = make_complete_assembly h s"
  by (simp add: make_complete_assembly_def include_asym_units_result add_entities_result)

text \<open>
  Claim C6.  The recomputed complete assembly holds the asymmetric units in their order,
  then the entities without a structural instance: with the units \<open>a1\<close> of \<open>e1\<close> and
  \<open>a2\<close> of \<open>e2\<close> and the entities \<open>[e1, e2, e3]\<close>, where the sequence of \<open>e3\<close>
  is that of no unit's entity, it is \<open>[a1, a2, e3]\<close>.
\<close>

theorem make_complete_assembly_example:
  assumes "asym_units s = [a1, a2]" and "entities s = [e1, e2, e3]"
    and "asym_entity h a1 = e1" and "asym_entity h a2 = e2"
    and "entity_sequence h e3 \<noteq> entity_sequence h e1"
    and "entity_sequence h e3 \<noteq> entity_sequence h e2"
  shows "elements (make_complete_assembly h s) (complete_assembly s) =
           [OfAsymUnit a1, OfAsymUnit a2, OfEntity e3]"
  using assms by (simp add: make_complete_assembly_elements)

theorem make_complete_assembly_example_witness:
  "elements
     (make_complete_assembly
        (empty_heap\<lparr>entity_sequence := (\<lambda>_. [])(11 := ''ACD'', 12 := ''EFG'', 13 := ''HIK''),
                    asym_entity := (\<lambda>_. 0)(1 := 11, 2 := 12)\<rparr>)
        ((System_init 0)\<lparr>entities := [11, 12, 13], asym_units := [1, 2]\<rparr>))
     0 = [OfAsymUnit 1, OfAsymUnit 2, OfEntity 13]"
  using make_complete_assembly_example [of
     "(System_init 0)\<lparr>entities := [11, 12, 13], asym_units := [1, 2]\<rparr>" 1 2 11 12 13
     "empty_heap\<lparr>entity_sequence := (\<lambda>_. [])(11 := ''ACD'', 12 := ''EFG'', 13 := ''HIK''),
                 asym_entity := (\<lambda>_. 0)(1 := 11, 2 := 12)\<rparr>"]
  by (simp add: System_init_def empty_heap_def)

text \<open>
  Claim C10.  Whether an entity has a structural instance is decided by its sequence:
  an entity whose sequence equals that of the entity of some asymmetric unit of the system
  is not added to the complete assembly, also when no unit refers to that very object.
\<close>

theorem make_complete_assembly_by_sequence:
  assumes "a \<in> set (asym_units s)"
    and "entity_sequence h e = entity_sequence h (asym_entity h a)"
  shows "OfEntity e \<notin> set (elements (make_complete_assembly h s) (complete_assembly s))"
  using assms by (auto simp: make_complete_assembly_elements)

theorem make_complete_assembly_by_sequence_witness:
  "asym_entity
     (empty_heap\<lparr>entity_sequence := (\<lambda>_. [])(11 := ''ACD'', 13 := ''ACD''),
                 asym_entity := (\<lambda>_. 0)(1 := 11)\<rparr>) 1 \<noteq> 13 \<and>
   OfEntity 13 \<notin> set (elements
     (make_complete_assembly
        (empty_heap\<lparr>entity_sequence := (\<lambda>_. [])(11 := ''ACD'', 13 := ''ACD''),
                    asym_entity := (\<lambda>_. 0)(1 := 11)\<rparr>)
        ((System_init 0)\<lparr>entities := [11, 13], asym_units := [1]\<rparr>))
     0)"
  using make_complete_assembly_by_sequence [of 1
     "(System_init 0)\<lparr>entities := [11, 13], asym_units := [1]\<rparr>"
     "empty_heap\<lparr>entity_sequence := (\<lambda>_. [])(11 := ''ACD'', 13 := ''ACD''),
                 asym_entity := (\<lambda>_. 0)(1 := 11)\<rparr>" 13]
  by (simp add: System_init_def empty_heap_def)

section \<open>Iterators and the lists they yield\<close>

lemma yield_from_each_error:
  "x \<in> set xs \<Longrightarrow> snd (f x) \<noteq> None \<Longrightarrow> snd (yield_from_each f xs) \<noteq> None"
  by (induction xs) (auto split: prod.splits option.splits)

lemma yield_from_each_only:
  "(\<And>x. x \<in> set xs \<Longrightarrow> snd (f x) = Some e \<or> snd (f x) = None) \<Longrightarrow>
   snd (yield_from_each f xs) = Some e \<or> snd (yield_from_each f xs) = None"
proof (induction xs)
  case Nil
  show ?case by simp
next
  case (Cons a xs)
  have a: "snd (f a) = Some e \<or> snd (f a) = None" using Cons.prems by simp
  have r: "snd (yield_from_each f xs) = Some e \<or> snd (yield_from_each f xs) = None"
    using Cons.prems by (intro Cons.IH) simp
  from a r show ?case by (auto split: prod.splits option.splits)
qed

lemma yield_from_each_returns:
  "\<forall>x\<in>set xs. snd (f x) = None \<Longrightarrow> snd (yield_from_each f xs) = None"
  by (induction xs) (auto split: prod.splits option.splits)

lemma yield_from_each_all:
  "\<forall>x\<in>set xs. f x = (g x, None) \<Longrightarrow> yield_from_each f xs = (concat (map g xs), None)"
  by (induction xs) auto

lemma yield_from_each_None:
  "yield_from_each f xs = (ys, None) \<Longrightarrow>
   (\<forall>x\<in>set xs. snd (f x) = None) \<and> ys = concat (map (\<lambda>x. fst (f x)) xs)"
proof (induction xs arbitrary: ys)
  case Nil
  then show ?case by simp
next
  case (Cons a xs)
  obtain as ea where a: "f a = (as, ea)" by (cases "f a")
  obtain zs r where rest: "yield_from_each f xs = (zs, r)" by (cases "yield_from_each f xs")
  from Cons.prems a rest have "ea = None" and "r = None" and "ys = as @ zs"
    by (auto split: option.splits)
  with Cons.IH [of zs] a rest show ?case by simp
qed

lemma yield_from_each_parts:
  "yield_from_each f xs = (ys, None) \<Longrightarrow> x \<in> set xs \<Longrightarrow>
   \<exists>zs. f x = (zs, None) \<and> set zs \<subseteq> set ys"
proof -
  assume r: "yield_from_each f xs = (ys, None)" and x: "x \<in> set xs"
  from yield_from_each_None [OF r] x
  have "snd (f x) = None" and "set (fst (f x)) \<subseteq> set ys" by auto
  then show ?thesis by (cases "f x") auto
qed

lemma refines_at:
  "refines k it xs \<Longrightarrow>
   (k \<le> n \<longrightarrow> it n = (xs, None)) \<and> (snd (it n) = None \<longrightarrow> fst (it n) = xs) \<and>
   (snd (it n) = None \<or> snd (it n) = Some RecursionError)"
  by (simp add: refines_def)

lemma refines_mono: "refines j it xs \<Longrightarrow> j \<le> k \<Longrightarrow> refines k it xs"
  unfolding refines_def by (meson order_trans)

lemma refines_iter_list: "refines k (iter_list xs) xs"
  by (simp add: refines_def iter_list_def)

lemma refines_chain:
  assumes "refines k a xs" and "refines k b ys"
  shows "refines k (itertools_chain a b) (xs @ ys)"
  unfolding refines_def
proof (intro allI)
  fix n
  from refines_at [OF assms(1), of n] refines_at [OF assms(2), of n]
  show "(k \<le> n \<longrightarrow> itertools_chain a b n = (xs @ ys, None)) \<and>
        (snd (itertools_chain a b n) = None \<longrightarrow> fst (itertools_chain a b n) = xs @ ys) \<and>
        (snd (itertools_chain a b n) = None \<or>
         snd (itertools_chain a b n) = Some RecursionError)"
    by (cases "a n"; cases "b n") (auto simp: itertools_chain_def split: option.splits)
qed

lemma refines_generator:
  assumes "refines j body xs" and "Suc j \<le> k"
  shows "refines k (generator body) xs"
  unfolding refines_def
proof (intro allI)
  fix n
  show "(k \<le> n \<longrightarrow> generator body n = (xs, None)) \<and>
        (snd (generator body n) = None \<longrightarrow> fst (generator body n) = xs) \<and>
        (snd (generator body n) = None \<or> snd (generator body n) = Some RecursionError)"
  proof (cases n)
    case 0
    with assms(2) show ?thesis by (simp add: generator_def)
  next
    case (Suc m)
    with refines_at [OF assms(1), of m] assms(2) show ?thesis
      by (auto simp: generator_def)
  qed
qed

lemma refines_for_each:
  assumes src: "refines k src xs" and body: "\<And>x. refines k (body x) (f x)"
  shows "refines k (for_each src body) (concat (map f xs))"
  unfolding refines_def
proof (intro allI conjI impI)
  fix n
  assume "k \<le> n"
  with refines_at [OF src, of n] have s: "src n = (xs, None)" by simp
  from \<open>k \<le> n\<close> refines_at [OF body, of n] have "\<forall>x\<in>set xs. body x n = (f x, None)"
    by simp
  then have "yield_from_each (\<lambda>x. body x n) xs = (concat (map f xs), None)"
    by (rule yield_from_each_all)
  with s show "for_each src body n = (concat (map f xs), None)"
    by (simp add: for_each_def)
next
  fix n
  assume ret: "snd (for_each src body n) = None"
  obtain xs' e where s: "src n = (xs', e)" by (cases "src n")
  obtain ys r where y: "yield_from_each (\<lambda>x. body x n) xs' = (ys, r)"
    by (cases "yield_from_each (\<lambda>x. body x n) xs'")
  from ret s y have "r = None" and "e = None" and res: "for_each src body n = (ys, None)"
    by (auto simp: for_each_def split: option.splits)
  with refines_at [OF src, of n] s have "xs' = xs" by simp
  with y \<open>r = None\<close> have "yield_from_each (\<lambda>x. body x n) xs = (ys, None)" by simp
  from yield_from_each_None [OF this]
  have all: "\<forall>x\<in>set xs. snd (body x n) = None"
    and ys: "ys = concat (map (\<lambda>x. fst (body x n)) xs)" by auto
  from all refines_at [OF body, where n = n] have "\<forall>x\<in>set xs. fst (body x n) = f x" by blast
  then have "map (\<lambda>x. fst (body x n)) xs = map f xs" by simp
  with ys res show "fst (for_each src body n) = concat (map f xs)" by simp
next
  fix n
  obtain xs' e where s: "src n = (xs', e)" by (cases "src n")
  have "snd (yield_from_each (\<lambda>x. body x n) xs') = Some RecursionError \<or>
        snd (yield_from_each (\<lambda>x. body x n) xs') = None"
  proof (rule yield_from_each_only)
    fix x
    from refines_at [OF body [of x], where n = n]
    show "snd (body x n) = Some RecursionError \<or> snd (body x n) = None" by auto
  qed
  moreover from refines_at [OF src, of n] s have "e = None \<or> e = Some RecursionError"
    by simp
  ultimately
  show "snd (for_each src body n) = None \<or> snd (for_each src body n) = Some RecursionError"
    using s by (cases "yield_from_each (\<lambda>x. body x n) xs'")
               (auto simp: for_each_def split: option.splits)
qed

lemma refines_for_each_list:
  "refines k src xs \<Longrightarrow> refines k (for_each src (\<lambda>x. iter_list (f x))) (concat (map f xs))"
  by (rule refines_for_each) (simp_all add: refines_iter_list)

lemma refines_remove_identical_gen:
  assumes "refines j gen xs" and "Suc j \<le> k"
  shows "refines k (remove_identical_gen gen) (remove_identical xs)"
proof -
  have "refines j (\<lambda>limit. case gen limit of (objs, e) \<Rightarrow> (remove_identical objs, e))
          (remove_identical xs)"
    unfolding refines_def
  proof (intro allI)
    fix n
    from refines_at [OF assms(1), of n]
    show "(j \<le> n \<longrightarrow> (case gen n of (objs, e) \<Rightarrow> (remove_identical objs, e)) =
              (remove_identical xs, None)) \<and>
          (snd (case gen n of (objs, e) \<Rightarrow> (remove_identical objs, e)) = None \<longrightarrow>
              fst (case gen n of (objs, e) \<Rightarrow> (remove_identical objs, e)) =
              remove_identical xs) \<and>
          (snd (case gen n of (objs, e) \<Rightarrow> (remove_identical objs, e)) = None \<or>
           snd (case gen n of (objs, e) \<Rightarrow> (remove_identical objs, e)) =
              Some RecursionError)"
      by (cases "gen n") auto
  qed
  then show ?thesis unfolding remove_identical_gen_def using assms(2)
    by (rule refines_generator)
qed

lemma refines_call_and_iterate:
  assumes "\<And>j. m j = Inr it" and "refines k it xs" and "0 < k"
  shows "refines k (call_and_iterate m) xs"
  unfolding refines_def
proof (intro allI)
  fix n
  show "(k \<le> n \<longrightarrow> call_and_iterate m n = (xs, None)) \<and>
        (snd (call_and_iterate m n) = None \<longrightarrow> fst (call_and_iterate m n) = xs) \<and>
        (snd (call_and_iterate m n) = None \<or>
         snd (call_and_iterate m n) = Some RecursionError)"
  proof (cases n)
    case 0
    with assms(3) show ?thesis by (simp add: call_and_iterate_def call_def)
  next
    case (Suc j)
    with refines_at [OF assms(2), of n] assms(1) show ?thesis
      by (simp add: call_and_iterate_def call_def)
  qed
qed

lemma refines_call_and_iterate_Inr:
  "refines k it xs \<Longrightarrow> 0 < k \<Longrightarrow> refines k (call_and_iterate (\<lambda>limit. Inr it)) xs"
  by (rule refines_call_and_iterate [where it = it]) simp_all

lemma refines_generator_for_each_list:
  "refines j src xs \<Longrightarrow> Suc j \<le> k \<Longrightarrow>
   refines k (generator (for_each src (\<lambda>x. iter_list (f x)))) (concat (map f xs))"
  by (rule refines_generator [where j = j]) (rule refines_for_each_list, assumption+)

lemma refines_remove_identical_chain:
  "refines j gen ys \<Longrightarrow> Suc j \<le> k \<Longrightarrow>
   refines k (remove_identical_gen (itertools_chain (iter_list xs) gen))
     (remove_identical (xs @ ys))"
  by (rule refines_remove_identical_gen [where j = j])
     (rule refines_chain, rule refines_iter_list, assumption+)

subsection \<open>The iterators of \<open>System\<close> yield the enumerations\<close>

lemma all_model_groups_gen_refines:
  "refines 1 (all_model_groups_gen h s) (all_model_groups h s)"
  unfolding all_model_groups_gen_def all_model_groups_def
proof (rule refines_generator [where j = 0])
  show "refines 0 (for_each (iter_list (state_groups s)) (\<lambda>state_group.
            for_each (iter_list (items h state_group)) (\<lambda>state. iter_list (items h state))))
          (concat (map (\<lambda>state_group.
             concat (map (\<lambda>state. items h state) (items h state_group))) (state_groups s)))"
    by (rule refines_for_each, rule refines_iter_list, rule refines_for_each_list,
        rule refines_iter_list)
qed simp

lemma all_models_gen_refines: "refines 2 (all_models_gen h s) (all_models h s)"
  unfolding all_models_gen_def all_models_def
  by (rule refines_generator_for_each_list [OF all_model_groups_gen_refines]) simp

lemma over_models_refines:
  "refines 3 (generator (for_each (all_models_gen h s) (\<lambda>(grp, model). iter_list (f model))))
     (concat (map (\<lambda>(grp, model). f model) (all_models h s)))"
proof -
  have "refines 3 (generator (for_each (all_models_gen h s)
                (\<lambda>x. iter_list (f (snd x)))))
          (concat (map (\<lambda>x. f (snd x)) (all_models h s)))"
    by (rule refines_generator_for_each_list [OF all_models_gen_refines]) simp
  then show ?thesis by (simp add: case_prod_unfold)
qed

lemma all_representations_returned:
  "refines 4
     (remove_identical_gen
        (itertools_chain (iter_list (orphan_representations s))
           (generator (for_each (all_models_gen h s) (\<lambda>(grp, model).
              iter_list (present h (model_representation h model)))))))
     (all_representations h s)"
  unfolding all_representations_def
  by (rule refines_remove_identical_chain [OF over_models_refines]) simp

lemma all_protocols_returned:
  "refines 4
     (remove_identical_gen
        (itertools_chain (iter_list (orphan_protocols s))
           (generator (for_each (all_models_gen h s) (\<lambda>(grp, model).
              iter_list (present h (model_protocol h model)))))))
     (all_protocols h s)"
  unfolding all_protocols_def
  by (rule refines_remove_identical_chain [OF over_models_refines]) simp

lemma all_representations_iterate:
  "refines 4 (call_and_iterate (all_representations_method h s)) (all_representations h s)"
  unfolding all_representations_method_def
  by (rule refines_call_and_iterate_Inr [OF all_representations_returned]) simp

lemma all_protocols_iterate:
  "refines 4 (call_and_iterate (all_protocols_method h s)) (all_protocols h s)"
  unfolding all_protocols_method_def
  by (rule refines_call_and_iterate_Inr [OF all_protocols_returned]) simp

lemma all_segments_gen_refines: "refines 5 (all_segments_gen h s) (all_segments h s)"
  unfolding all_segments_gen_def all_segments_def
  by (rule refines_generator_for_each_list [OF all_representations_iterate]) simp

lemma all_starting_models_returned:
  "refines 7
     (remove_identical_gen
        (itertools_chain (iter_list (orphan_starting_models s))
           (generator (for_each (all_segments_gen h s) (\<lambda>segment.
              iter_list (present h (segment_starting_model h segment)))))))
     (all_starting_models h s)"
proof -
  have "refines 6 (generator (for_each (all_segments_gen h s)
                     (\<lambda>segment. iter_list (present h (segment_starting_model h segment)))))
          (concat (map (\<lambda>segment. present h (segment_starting_model h segment))
                       (all_segments h s)))"
    by (rule refines_generator_for_each_list [OF all_segments_gen_refines]) simp
  then show ?thesis
    unfolding all_starting_models_def by (rule refines_remove_identical_chain) simp
qed

lemma all_starting_models_iterate:
  "refines 7 (call_and_iterate (all_starting_models_method h s)) (all_starting_models h s)"
  unfolding all_starting_models_method_def
  by (rule refines_call_and_iterate_Inr [OF all_starting_models_returned]) simp

lemma all_protocol_steps_gen_refines:
  "refines 5 (all_protocol_steps_gen h s) (all_protocol_steps h s)"
  unfolding all_protocol_steps_gen_def all_protocol_steps_def
  by (rule refines_generator_for_each_list [OF all_protocols_iterate]) simp

lemma all_analysis_steps_gen_refines:
  "refines 5 (all_analysis_steps_gen h s) (all_analysis_steps h s)"
  unfolding all_analysis_steps_gen_def all_analysis_steps_def
proof (rule refines_generator [where j = 4])
  show "refines 4 (for_each (call_and_iterate (all_protocols_method h s)) (\<lambda>protocol.
            for_each (iter_list (protocol_analyses h protocol)) (\<lambda>analysis.
              iter_list (analysis_steps h analysis))))
          (concat (map (\<lambda>protocol.
             concat (map (\<lambda>analysis. analysis_steps h analysis)
                         (protocol_analyses h protocol))) (all_protocols h s)))"
    by (rule refines_for_each, rule all_protocols_iterate, rule refines_for_each_list,
        rule refines_iter_list)
qed simp

lemma all_dataset_groups_iterate:
  "refines 6 (call_and_iterate (all_dataset_groups_method h s)) (all_dataset_groups h s)"
proof -
  have 1: "refines 6 (generator (for_each (all_protocol_steps_gen h s)
              (\<lambda>step. iter_list (present h (step_dataset_group h step)))))
            (concat (map (\<lambda>step. present h (step_dataset_group h step))
                         (all_protocol_steps h s)))"
    by (rule refines_generator_for_each_list [OF all_protocol_steps_gen_refines]) simp
  have 2: "refines 6 (generator (for_each (all_analysis_steps_gen h s)
              (\<lambda>step. iter_list (present h (step_dataset_group h step)))))
            (concat (map (\<lambda>step. present h (step_dataset_group h step))
                         (all_analysis_steps h s)))"
    by (rule refines_generator_for_each_list [OF all_analysis_steps_gen_refines]) simp
  show ?thesis
    unfolding all_dataset_groups_method_def all_dataset_groups_def
    by (rule refines_call_and_iterate_Inr, rule refines_chain, rule refines_iter_list,
        rule refines_chain, rule 1, rule 2, simp)
qed

lemma all_templates_gen_refines: "refines 8 (all_templates_gen h s) (all_templates h s)"
  unfolding all_templates_gen_def all_templates_def
  by (rule refines_generator_for_each_list [OF all_starting_models_iterate]) simp

lemma all_datasets_in_groups_refines:
  "refines 7 (all_datasets_in_groups h s)
     (concat (map (\<lambda>dg. items h dg) (all_dataset_groups h s)))"
  unfolding all_datasets_in_groups_def
  by (rule refines_generator_for_each_list [OF all_dataset_groups_iterate]) simp

text \<open>
  Nine frames are enough for \<open>_all_datasets_except_parents\<close>: the deepest nesting is that
  of the datasets of templates.
\<close>

lemma all_datasets_except_parents_iterate:
  "refines 9 (call_and_iterate (all_datasets_except_parents_method h s))
     (all_datasets_except_parents h s)"
proof -
  let ?sm = "remove_identical_gen
        (itertools_chain (iter_list (orphan_starting_models s))
           (generator (for_each (all_segments_gen h s) (\<lambda>segment.
              iter_list (present h (segment_starting_model h segment))))))"
  let ?it = "itertools_chain (iter_list (orphan_datasets s))
          (itertools_chain (all_datasets_in_groups h s)
          (itertools_chain
             (generator (for_each ?sm (\<lambda>sm.
                iter_list (present h (starting_model_dataset h sm)))))
          (itertools_chain
             (generator (for_each (iter_list (restraints s)) (\<lambda>restraint.
                iter_list (present h (restraint_dataset h restraint)))))
             (generator (for_each (all_templates_gen h s) (\<lambda>template.
                iter_list (present h (template_dataset h template))))))))"
  have 1: "refines 9 (all_datasets_in_groups h s)
             (concat (map (\<lambda>dg. items h dg) (all_dataset_groups h s)))"
    by (rule refines_mono [OF all_datasets_in_groups_refines]) simp
  have 2: "refines 9 (generator (for_each ?sm (\<lambda>sm.
                iter_list (present h (starting_model_dataset h sm)))))
             (concat (map (\<lambda>sm. present h (starting_model_dataset h sm))
                          (all_starting_models h s)))"
    by (rule refines_generator_for_each_list [OF all_starting_models_returned]) simp
  have 3: "refines 9 (generator (for_each (iter_list (restraints s)) (\<lambda>restraint.
                iter_list (present h (restraint_dataset h restraint)))))
             (concat (map (\<lambda>restraint. present h (restraint_dataset h restraint))
                          (restraints s)))"
    by (rule refines_generator_for_each_list [OF refines_iter_list [where k = 0]]) simp
  have 4: "refines 9 (generator (for_each (all_templates_gen h s) (\<lambda>template.
                iter_list (present h (template_dataset h template)))))
             (concat (map (\<lambda>template. present h (template_dataset h template))
                          (all_templates h s)))"
    by (rule refines_generator_for_each_list [OF all_templates_gen_refines]) simp
  have it: "refines 9 ?it (all_datasets_except_parents h s)"
    unfolding all_datasets_except_parents_def
    by (rule refines_chain, rule refines_iter_list, rule refines_chain, rule 1,
        rule refines_chain, rule 2, rule refines_chain, rule 3, rule 4)
  have m: "\<And>j. all_datasets_except_parents_method h s j =
             (case j of 0 \<Rightarrow> Inl RecursionError | Suc i \<Rightarrow> Inr ?it)"
    by (simp add: all_datasets_except_parents_method_def call_def
          all_starting_models_method_def split: nat.splits)
  show ?thesis
    unfolding refines_def
  proof (intro allI)
    fix n
    let ?c = "call_and_iterate (all_datasets_except_parents_method h s)"
    have small: "n < 2 \<Longrightarrow> ?c n = ([], Some RecursionError)"
      by (cases n) (auto simp: call_and_iterate_def call_def m split: nat.splits)
    have large: "2 \<le> n \<Longrightarrow> ?c n = ?it n"
      by (cases n) (auto simp: call_and_iterate_def call_def m split: nat.splits)
    show "(9 \<le> n \<longrightarrow> ?c n = (all_datasets_except_parents h s, None)) \<and>
          (snd (?c n) = None \<longrightarrow> fst (?c n) = all_datasets_except_parents h s) \<and>
          (snd (?c n) = None \<or> snd (?c n) = Some RecursionError)"
    proof (cases "n < 2")
      case True
      with small show ?thesis by simp
    next
      case False
      with large have "?c n = ?it n" by simp
      with refines_at [OF it, of n] show ?thesis by simp
    qed
  qed
qed

section \<open>Dataset enumeration\<close>

lemma parent_chain_append:
  "parent_chain h d (xs @ ys) = (parent_chain h d xs \<and> parent_chain h (last (d # xs)) ys)"
  by (induction xs arbitrary: d) auto

lemma all_datasets_and_parents_only:
  "snd (all_datasets_and_parents limit h d) = Some RecursionError \<or>
   snd (all_datasets_and_parents limit h d) = None"
proof (induction limit arbitrary: d)
  case 0
  show ?case by simp
next
  case (Suc limit)
  have "snd (yield_from_each (\<lambda>p. all_datasets_and_parents limit h p) (dataset_parents h d))
          = Some RecursionError \<or>
        snd (yield_from_each (\<lambda>p. all_datasets_and_parents limit h p) (dataset_parents h d))
          = None"
    by (rule yield_from_each_only) (rule Suc.IH)
  then show ?case by (auto split: prod.splits option.splits)
qed

text \<open>A chain of parents at least as long as the limit uses every frame there is.\<close>

lemma long_chain_exhausts:
  "parent_chain h d path \<Longrightarrow> limit \<le> length path \<Longrightarrow>
   snd (all_datasets_and_parents limit h d) \<noteq> None"
proof (induction limit arbitrary: d path)
  case 0
  show ?case by simp
next
  case (Suc limit)
  then obtain p ps where path: "path = p # ps" by (cases path) auto
  with Suc.prems have p: "p \<in> set (dataset_parents h d)" and ch: "parent_chain h p ps"
    and len: "limit \<le> length ps" by auto
  have "snd (all_datasets_and_parents limit h p) \<noteq> None"
    using Suc.IH [OF ch len] .
  with p have "snd (yield_from_each (\<lambda>p. all_datasets_and_parents limit h p)
                    (dataset_parents h d)) \<noteq> None"
    by (rule yield_from_each_error)
  then show ?case by (auto split: prod.splits option.splits)
qed

lemma cycle_repeats:
  "parent_chain h c cyc \<Longrightarrow> cyc \<noteq> [] \<Longrightarrow> last cyc = c \<Longrightarrow>
   parent_chain h c (concat (replicate k cyc))"
  by (induction k) (auto simp: parent_chain_append)

lemma length_concat_replicate: "cyc \<noteq> [] \<Longrightarrow> k \<le> length (concat (replicate k cyc))"
  by (induction k) (auto simp: Suc_le_eq intro: add_strict_increasing)

lemma self_parent_yields_nothing:
  "dataset_parents h d = [d] \<Longrightarrow>
   all_datasets_and_parents limit h d = ([], Some RecursionError)"
  by (induction limit) auto

text \<open>
  What \<open>_all_datasets\<close> does with the datasets it gets: with nine frames or more it gets
  all of them, and in any case it ends normally or with \<open>RecursionError\<close>.
\<close>

lemma all_datasets_enough:
  assumes "9 \<le> limit"
  shows "all_datasets limit h s =
           yield_from_each (\<lambda>d. all_datasets_and_parents limit h d)
                           (all_datasets_except_parents h s)"
proof -
  from refines_at [OF all_datasets_except_parents_iterate, of limit h s] assms
  have "call_and_iterate (all_datasets_except_parents_method h s) limit =
          (all_datasets_except_parents h s, None)" by simp
  then show ?thesis
    by (cases "yield_from_each (\<lambda>d. all_datasets_and_parents limit h d)
                 (all_datasets_except_parents h s)")
       (auto simp: all_datasets_def for_each_def split: option.splits)
qed

lemma all_datasets_only:
  "snd (all_datasets limit h s) = Some RecursionError \<or> snd (all_datasets limit h s) = None"
proof -
  obtain xs e where s: "call_and_iterate (all_datasets_except_parents_method h s) limit = (xs, e)"
    by (cases "call_and_iterate (all_datasets_except_parents_method h s) limit")
  from refines_at [OF all_datasets_except_parents_iterate, of limit h s] s
  have e: "e = None \<or> e = Some RecursionError" by simp
  have "snd (yield_from_each (\<lambda>d. all_datasets_and_parents limit h d) xs)
          = Some RecursionError \<or>
        snd (yield_from_each (\<lambda>d. all_datasets_and_parents limit h d) xs) = None"
    by (rule yield_from_each_only) (rule all_datasets_and_parents_only)
  with e s show ?thesis
    by (cases "yield_from_each (\<lambda>d. all_datasets_and_parents limit h d) xs")
       (auto simp: all_datasets_def for_each_def split: option.splits)
qed

lemma all_datasets_reaches:
  assumes "d \<in> set (all_datasets_except_parents h s)"
    and "snd (all_datasets_and_parents limit h d) \<noteq> None"
  shows "snd (all_datasets limit h s) \<noteq> None"
proof -
  obtain xs e where s: "call_and_iterate (all_datasets_except_parents_method h s) limit = (xs, e)"
    by (cases "call_and_iterate (all_datasets_except_parents_method h s) limit")
  show ?thesis
  proof (cases e)
    case None
    with refines_at [OF all_datasets_except_parents_iterate, of limit h s] s
    have "xs = all_datasets_except_parents h s" by simp
    with assms have "snd (yield_from_each (\<lambda>d. all_datasets_and_parents limit h d) xs)
                       \<noteq> None"
      by (intro yield_from_each_error [where x = d]) simp_all
    with s show ?thesis
      by (cases "yield_from_each (\<lambda>d. all_datasets_and_parents limit h d) xs")
         (auto simp: all_datasets_def for_each_def split: option.splits)
  next
    case (Some err)
    with s show ?thesis
      by (cases "yield_from_each (\<lambda>d. all_datasets_and_parents limit h d) xs")
         (auto simp: all_datasets_def for_each_def split: option.splits)
  qed
qed

text \<open>
  Claim C2, as the code has it.  The enumeration of datasets has no cycle guard and never
  raises \<open>GraphCycleError\<close>.  When an enumerated dataset \<open>d\<close> is, or descends (through
  \<open>pre\<close>) from, a dataset that is its own parent directly or transitively (through
  \<open>cyc\<close>), the nested generators use up the recursion limit, whatever it is, and the
  enumeration ends with \<open>RecursionError\<close>.
\<close>

theorem all_datasets_cycle:
  assumes "d \<in> set (all_datasets_except_parents h s)"
    and "parent_chain h d (pre @ cyc)" and "cyc \<noteq> []" and "last cyc = last (d # pre)"
  shows "snd (all_datasets limit h s) = Some RecursionError"
proof -
  let ?c = "last (d # pre)"
  from assms(2) have pre: "parent_chain h d pre" and cyc: "parent_chain h ?c cyc"
    by (simp_all add: parent_chain_append)
  have "parent_chain h ?c (concat (replicate limit cyc))"
    using cyc assms(3,4) by (rule cycle_repeats)
  with pre have "parent_chain h d (pre @ concat (replicate limit cyc))"
    by (simp add: parent_chain_append)
  moreover have "limit \<le> length (pre @ concat (replicate limit cyc))"
    using length_concat_replicate [OF assms(3), of limit] by simp
  ultimately have "snd (all_datasets_and_parents limit h d) \<noteq> None"
    by (rule long_chain_exhausts)
  with assms(1) have "snd (all_datasets limit h s) \<noteq> None"
    by (rule all_datasets_reaches)
  with all_datasets_only [of limit h s] show ?thesis by auto
qed

text \<open>
  The theorem at a system whose orphan dataset 1 has the parent 2, where 2 and 3 are each
  other's parent, with the interpreter's default limit of 1000.
\<close>

theorem all_datasets_cycle_witness:
  "snd (all_datasets 1000
          (empty_heap\<lparr>dataset_parents := (\<lambda>_. [])(1 := [2], 2 := [3], 3 := [2])\<rparr>)
          ((System_init 0)\<lparr>orphan_datasets := [1]\<rparr>)) = Some RecursionError"
  using all_datasets_cycle [of 1
     "empty_heap\<lparr>dataset_parents := (\<lambda>_. [])(1 := [2], 2 := [3], 3 := [2])\<rparr>"
     "(System_init 0)\<lparr>orphan_datasets := [1]\<rparr>" "[2]" "[3, 2]" 1000]
  by (simp add: System_init_def empty_heap_def all_datasets_except_parents_def
        all_dataset_groups_def all_protocol_steps_def all_analysis_steps_def
        all_protocols_def all_starting_models_def all_templates_def all_segments_def
        all_representations_def all_models_def all_model_groups_def remove_identical_def)

text \<open>
  Claim C2 as the specification states it fails: for an orphan dataset that is its own
  parent the enumeration yields nothing and ends with \<open>RecursionError\<close>, not with
  \<open>GraphCycleError\<close>.
\<close>

theorem all_datasets_cycle_counterexample:
  "all_datasets 1000
     (empty_heap\<lparr>dataset_parents := (\<lambda>_. [])(1 := [1])\<rparr>)
     ((System_init 0)\<lparr>orphan_datasets := [1]\<rparr>) = ([], Some RecursionError) \<and>
   snd (all_datasets 1000
     (empty_heap\<lparr>dataset_parents := (\<lambda>_. [])(1 := [1])\<rparr>)
     ((System_init 0)\<lparr>orphan_datasets := [1]\<rparr>)) \<noteq> Some GraphCycleError"
proof -
  have "dataset_parents (empty_heap\<lparr>dataset_parents := (\<lambda>_. [])(1 := [1])\<rparr>) 1 = [1]"
    by simp
  then have "all_datasets_and_parents 1000
               (empty_heap\<lparr>dataset_parents := (\<lambda>_. [])(1 := [1])\<rparr>) 1
             = ([], Some RecursionError)"
    by (rule self_parent_yields_nothing)
  moreover have "all_datasets_except_parents
                   (empty_heap\<lparr>dataset_parents := (\<lambda>_. [])(1 := [1])\<rparr>)
                   ((System_init 0)\<lparr>orphan_datasets := [1]\<rparr>) = [1]"
    by (simp add: System_init_def empty_heap_def all_datasets_except_parents_def
        all_dataset_groups_def all_protocol_steps_def all_analysis_steps_def
        all_protocols_def all_starting_models_def all_templates_def all_segments_def
        all_representations_def all_models_def all_model_groups_def remove_identical_def)
  ultimately show ?thesis by (simp add: all_datasets_enough)
qed

subsection \<open>Parents before children\<close>

lemma parents_first_append:
  "parents_first h seen (xs @ ys) =
     (parents_first h seen xs \<and> parents_first h (seen \<union> set xs) ys)"
  by (induction xs arbitrary: seen) auto

lemma parents_first_concat:
  "(\<And>x seen. x \<in> set xs \<Longrightarrow> parents_first h seen (g x)) \<Longrightarrow>
   parents_first h seen (concat (map g xs))"
  by (induction xs arbitrary: seen) (auto simp: parents_first_append)

text \<open>
  Without a cycle the expansion of a dataset returns, given as many frames as the chain
  is long: it is the transitive parents of the dataset, each after its own parents, and
  then the dataset.  Here some rank decreases along every parent edge, and the limit is
  above the rank of \<open>d\<close>.
\<close>

lemma all_datasets_and_parents_expands:
  assumes acyclic: "\<And>c p. p \<in> set (dataset_parents h c) \<Longrightarrow> rank p < rank c"
  shows "rank d < limit \<Longrightarrow>
         \<exists>zs. all_datasets_and_parents limit h d = (zs @ [d], None) \<and>
              (\<forall>a. a \<in> set zs \<longleftrightarrow> (\<exists>path. parent_chain h d (path @ [a]))) \<and>
              (\<forall>seen. parents_first h seen (zs @ [d]))"
proof (induction limit arbitrary: d)
  case 0
  then show ?case by simp
next
  case (Suc limit)
  let ?f = "\<lambda>p. all_datasets_and_parents limit h p"
  let ?g = "\<lambda>p. fst (?f p)"
  let ?ps = "dataset_parents h d"
  have each: "\<exists>zs. ?f p = (zs @ [p], None) \<and>
                (\<forall>a. a \<in> set zs \<longleftrightarrow> (\<exists>path. parent_chain h p (path @ [a]))) \<and>
                (\<forall>seen. parents_first h seen (zs @ [p]))"
    if "p \<in> set ?ps" for p
  proof -
    from that have "rank p < rank d" by (rule acyclic)
    with Suc.prems have "rank p < limit" by simp
    then show ?thesis by (rule Suc.IH)
  qed
  have "\<forall>p\<in>set ?ps. ?f p = (?g p, None)"
  proof
    fix p assume "p \<in> set ?ps"
    from each [OF this] show "?f p = (?g p, None)" by auto
  qed
  then have yf: "yield_from_each ?f ?ps = (concat (map ?g ?ps), None)"
    by (rule yield_from_each_all)
  let ?zs = "concat (map ?g ?ps)"
  from yf have res: "all_datasets_and_parents (Suc limit) h d = (?zs @ [d], None)"
    by simp
  have mem: "a \<in> set ?zs \<longleftrightarrow> (\<exists>path. parent_chain h d (path @ [a]))" for a
  proof
    assume "a \<in> set ?zs"
    then obtain p where p: "p \<in> set ?ps" and a: "a \<in> set (?g p)" by auto
    from each [OF p] obtain zs where zs: "?g p = zs @ [p]"
      and anc: "\<forall>a. a \<in> set zs \<longleftrightarrow> (\<exists>path. parent_chain h p (path @ [a]))" by auto
    show "\<exists>path. parent_chain h d (path @ [a])"
    proof (cases "a = p")
      case True
      with p have "parent_chain h d ([] @ [a])" by simp
      then show ?thesis by blast
    next
      case False
      with a zs have "a \<in> set zs" by simp
      with anc obtain path where "parent_chain h p (path @ [a])" by blast
      with p have "parent_chain h d ((p # path) @ [a])" by simp
      then show ?thesis by blast
    qed
  next
    assume "\<exists>path. parent_chain h d (path @ [a])"
    then obtain path where ch: "parent_chain h d (path @ [a])" by blast
    show "a \<in> set ?zs"
    proof (cases path)
      case Nil
      with ch have p: "a \<in> set ?ps" by simp
      from each [OF p] have "a \<in> set (?g a)" by auto
      with p show ?thesis by auto
    next
      case (Cons p path')
      with ch have p: "p \<in> set ?ps" and ch': "parent_chain h p (path' @ [a])" by auto
      from each [OF p] ch' have "a \<in> set (?g p)" by auto
      with p show ?thesis by auto
    qed
  qed
  have pf: "parents_first h seen (?zs @ [d])" for seen
  proof -
    have "parents_first h seen ?zs"
    proof (rule parents_first_concat)
      fix p seen' assume "p \<in> set ?ps"
      from each [OF this] show "parents_first h seen' (?g p)" by auto
    qed
    moreover have "set ?ps \<subseteq> set ?zs"
    proof
      fix p assume p: "p \<in> set ?ps"
      from each [OF p] have "p \<in> set (?g p)" by auto
      with p show "p \<in> set ?zs" by auto
    qed
    ultimately show ?thesis by (auto simp: parents_first_append)
  qed
  from res mem pf show ?case by blast
qed

lemma yield_from_each_expansions:
  assumes "\<And>d. d \<in> set ds \<Longrightarrow>
             \<exists>zs. f d = (zs @ [d], None) \<and>
                  (\<forall>a. a \<in> set zs \<longleftrightarrow> (\<exists>path. parent_chain h d (path @ [a]))) \<and>
                  (\<forall>seen. parents_first h seen (zs @ [d]))"
  shows "\<exists>ys. yield_from_each f ds = (ys, None) \<and> parents_first h seen ys \<and>
              (\<forall>a. a \<in> set ys \<longleftrightarrow>
                   (\<exists>d\<in>set ds. a = d \<or> (\<exists>path. parent_chain h d (path @ [a]))))"
proof -
  let ?g = "\<lambda>d. fst (f d)"
  have "\<forall>d\<in>set ds. f d = (?g d, None)"
  proof
    fix d assume "d \<in> set ds"
    from assms [OF this] show "f d = (?g d, None)" by auto
  qed
  then have yf: "yield_from_each f ds = (concat (map ?g ds), None)"
    by (rule yield_from_each_all)
  have pf: "parents_first h seen (concat (map ?g ds))"
  proof (rule parents_first_concat)
    fix d seen' assume "d \<in> set ds"
    from assms [OF this] show "parents_first h seen' (?g d)" by auto
  qed
  have mem: "a \<in> set (concat (map ?g ds)) \<longleftrightarrow>
             (\<exists>d\<in>set ds. a = d \<or> (\<exists>path. parent_chain h d (path @ [a])))" for a
  proof
    assume "a \<in> set (concat (map ?g ds))"
    then obtain d where d: "d \<in> set ds" and a: "a \<in> set (?g d)" by auto
    from assms [OF d] a have "a = d \<or> (\<exists>path. parent_chain h d (path @ [a]))" by auto
    with d show "\<exists>d\<in>set ds. a = d \<or> (\<exists>path. parent_chain h d (path @ [a]))" by blast
  next
    assume "\<exists>d\<in>set ds. a = d \<or> (\<exists>path. parent_chain h d (path @ [a]))"
    then obtain d where d: "d \<in> set ds"
      and a: "a = d \<or> (\<exists>path. parent_chain h d (path @ [a]))" by blast
    from assms [OF d] a have "a \<in> set (?g d)" by auto
    with d show "a \<in> set (concat (map ?g ds))" by auto
  qed
  from yf pf mem show ?thesis by blast
qed

text \<open>
  Claim C8.  Given the nine frames that the enumeration of the datasets to expand needs:
  on a graph without a cycle, and with as many frames as its parent chains are long, the
  enumeration returns, every dataset in it comes after all of its parents, and it holds
  exactly the enumerated datasets and their transitive parents.  In particular, when
  \<open>d3\<close> is enumerated once, its parent is \<open>d2\<close> and the parent of \<open>d2\<close> is
  \<open>d1\<close>, which has none, the enumeration is \<open>[d1, d2, d3]\<close>.
\<close>

theorem all_datasets_expansion:
  assumes "9 \<le> limit"
  shows "((\<forall>c. \<forall>p\<in>set (dataset_parents h c). rank p < rank c) \<and>
          (\<forall>d\<in>set (all_datasets_except_parents h s). rank d < limit) \<longrightarrow>
          (\<exists>ys. all_datasets limit h s = (ys, None) \<and> parents_first h {} ys \<and>
                (\<forall>a. a \<in> set ys \<longleftrightarrow>
                   (\<exists>d\<in>set (all_datasets_except_parents h s).
                      a = d \<or> (\<exists>path. parent_chain h d (path @ [a])))))) \<and>
         (all_datasets_except_parents h s = [d3] \<and> dataset_parents h d3 = [d2] \<and>
          dataset_parents h d2 = [d1] \<and> dataset_parents h d1 = [] \<longrightarrow>
          all_datasets limit h s = ([d1, d2, d3], None))"
proof (intro conjI impI)
  assume a: "(\<forall>c. \<forall>p\<in>set (dataset_parents h c). rank p < rank c) \<and>
             (\<forall>d\<in>set (all_datasets_except_parents h s). rank d < limit)"
  have "\<exists>ys. yield_from_each (\<lambda>d. all_datasets_and_parents limit h d)
               (all_datasets_except_parents h s) = (ys, None) \<and>
             parents_first h {} ys \<and>
             (\<forall>a. a \<in> set ys \<longleftrightarrow>
                (\<exists>d\<in>set (all_datasets_except_parents h s).
                   a = d \<or> (\<exists>path. parent_chain h d (path @ [a]))))"
  proof (rule yield_from_each_expansions)
    fix d assume "d \<in> set (all_datasets_except_parents h s)"
    with a have "rank d < limit" by blast
    moreover from a have "\<And>c p. p \<in> set (dataset_parents h c) \<Longrightarrow> rank p < rank c"
      by blast
    ultimately
    show "\<exists>zs. all_datasets_and_parents limit h d = (zs @ [d], None) \<and>
               (\<forall>a. a \<in> set zs \<longleftrightarrow> (\<exists>path. parent_chain h d (path @ [a]))) \<and>
               (\<forall>seen. parents_first h seen (zs @ [d]))"
      by (rule all_datasets_and_parents_expands [rotated])
  qed
  with assms
  show "\<exists>ys. all_datasets limit h s = (ys, None) \<and> parents_first h {} ys \<and>
             (\<forall>a. a \<in> set ys \<longleftrightarrow>
                (\<exists>d\<in>set (all_datasets_except_parents h s).
                   a = d \<or> (\<exists>path. parent_chain h d (path @ [a]))))"
    by (simp add: all_datasets_enough)
next
  assume e: "all_datasets_except_parents h s = [d3] \<and> dataset_parents h d3 = [d2] \<and>
             dataset_parents h d2 = [d1] \<and> dataset_parents h d1 = []"
  from assms have "3 \<le> limit" by simp
  then obtain n where "limit = Suc (Suc (Suc n))"
    by (metis Suc_le_D numeral_3_eq_3 Suc_le_mono)
  with e assms show "all_datasets limit h s = ([d1, d2, d3], None)"
    by (simp add: all_datasets_enough)
qed

text \<open>
  The theorem on the chain 3, 2, 1 with the dataset 3 as the only orphan, the datasets
  ranked by their numbers and the limit 1000.
\<close>

theorem all_datasets_expansion_witness:
  "all_datasets 1000
     (empty_heap\<lparr>dataset_parents := (\<lambda>_. [])(3 := [2], 2 := [1])\<rparr>)
     ((System_init 0)\<lparr>orphan_datasets := [3]\<rparr>) = ([1, 2, 3], None) \<and>
   parents_first (empty_heap\<lparr>dataset_parents := (\<lambda>_. [])(3 := [2], 2 := [1])\<rparr>) {}
     (fst (all_datasets 1000
        (empty_heap\<lparr>dataset_parents := (\<lambda>_. [])(3 := [2], 2 := [1])\<rparr>)
        ((System_init 0)\<lparr>orphan_datasets := [3]\<rparr>)))"
proof -
  let ?h = "empty_heap\<lparr>dataset_parents := (\<lambda>_. [])(3 := [2], 2 := [1])\<rparr>"
  let ?s = "(System_init 0)\<lparr>orphan_datasets := [3]\<rparr>"
  have enum: "all_datasets_except_parents ?h ?s = [3]"
    by (simp add: System_init_def empty_heap_def all_datasets_except_parents_def
        all_dataset_groups_def all_protocol_steps_def all_analysis_steps_def
        all_protocols_def all_starting_models_def all_templates_def all_segments_def
        all_representations_def all_models_def all_model_groups_def remove_identical_def)
  have acyclic: "\<forall>c. \<forall>p\<in>set (dataset_parents ?h c). p < c"
    by simp
  have frames: "\<forall>d\<in>set (all_datasets_except_parents ?h ?s). d < 1000"
    unfolding enum by simp
  have parents: "dataset_parents ?h 3 = [2] \<and> dataset_parents ?h 2 = [1] \<and>
                 dataset_parents ?h 1 = []"
    by simp
  have limit: "(9::nat) \<le> 1000" by simp
  from all_datasets_expansion [OF limit, of ?h "\<lambda>d. d" ?s 3 2 1] enum acyclic frames parents
  show ?thesis by auto
qed

text \<open>
  With fewer than nine frames the same enumeration yields the three datasets and then
  fails, when \<open>_all_datasets_except_parents\<close> goes on to look for further datasets.
\<close>

lemma all_datasets_few_frames:
  "all_datasets 3
     (empty_heap\<lparr>dataset_parents := (\<lambda>_. [])(3 := [2], 2 := [1])\<rparr>)
     ((System_init 0)\<lparr>orphan_datasets := [3]\<rparr>) = ([1, 2, 3], Some RecursionError) \<and>
   all_datasets 8
     (empty_heap\<lparr>dataset_parents := (\<lambda>_. [])(3 := [2], 2 := [1])\<rparr>)
     ((System_init 0)\<lparr>orphan_datasets := [3]\<rparr>) = ([1, 2, 3], Some RecursionError)"
  by (simp add: all_datasets_def for_each_def call_and_iterate_def call_def
      all_datasets_except_parents_method_def all_starting_models_method_def
      itertools_chain_def iter_list_def generator_def all_datasets_in_groups_def
      all_dataset_groups_method_def all_protocol_steps_gen_def all_analysis_steps_gen_def
      all_protocols_method_def remove_identical_gen_def all_templates_gen_def
      all_segments_gen_def all_representations_method_def all_models_gen_def
      all_model_groups_gen_def System_init_def empty_heap_def remove_identical_def
      eval_nat_numeral)

section \<open>Ranges\<close>

lemma range_bounds_stored:
  "er_seq_id_range (Entity_call e b en) = (b, en) \<and>
   ar_seq_id_range (AsymUnit_call a b en) = (b, en)"
  by (simp add: Entity_call_def AsymUnit_call_def EntityRange_init_def AsymUnitRange_init_def)

text \<open>
  Claim C3.  For the entity 11 with the sequence \<open>ACDE\<close> and its asymmetric unit 1, whose
  \<open>seq_id_range\<close> is \<open>(1, 4)\<close>, the calls \<open>entity(5, 2)\<close> and \<open>asym(0, 9)\<close>
  return ranges, and reading \<open>seq_id_range\<close> of them gives back \<open>(5, 2)\<close> and
  \<open>(0, 9)\<close>: nothing is checked and nothing is clamped.
\<close>

theorem range_bounds_unchecked:
  "Entity_seq_id_range (empty_heap\<lparr>entity_sequence := (\<lambda>_. [])(11 := ''ACDE''),
                                   asym_entity := (\<lambda>_. 0)(1 := 11)\<rparr>) 11 = (1, 4) \<and>
   AsymUnit_seq_id_range (empty_heap\<lparr>entity_sequence := (\<lambda>_. [])(11 := ''ACDE''),
                                     asym_entity := (\<lambda>_. 0)(1 := 11)\<rparr>) 1 = (1, 4) \<and>
   Entity_call 11 5 2 = \<lparr>er_entity = 11, er_seq_id_range = (5, 2)\<rparr> \<and>
   AsymUnit_call 1 0 9 = \<lparr>ar_asym = 1, ar_seq_id_range = (0, 9)\<rparr>"
  by (simp add: Entity_seq_id_range_def AsymUnit_seq_id_range_def empty_heap_def
        Entity_call_def AsymUnit_call_def EntityRange_init_def AsymUnitRange_init_def)

section \<open>Identity mapper\<close>

lemma make_new_keeps:
  "make_new m cls x args w = Inr (r, m', w') \<Longrightarrow> obj_by_id m y = Some q \<Longrightarrow>
   obj_by_id m' y = Some q"
  by (auto simp: make_new_def Let_def split: option.splits sum.splits)

lemma make_new_stores:
  "make_new m cls x args w = Inr (r, m', w') \<Longrightarrow> obj_by_id m' x = Some r"
  by (auto simp: make_new_def Let_def split: option.splits sum.splits)

lemma make_new_each_keeps:
  "make_new_each m calls w = Inr (m', w') \<Longrightarrow> obj_by_id m y = Some q \<Longrightarrow>
   obj_by_id m' y = Some q"
proof (induction calls arbitrary: m w)
  case Nil
  then show ?case by simp
next
  case (Cons c calls)
  obtain cls x args where c: "c = (cls, x, args)" by (cases c)
  from Cons.prems(1) c obtain r m1 w1 where
    1: "make_new m cls x args w = Inr (r, m1, w1)" and
    2: "make_new_each m1 calls w1 = Inr (m', w')"
    by (auto split: sum.splits)
  from make_new_keeps [OF 1 Cons.prems(2)] have "obj_by_id m1 y = Some q" .
  from Cons.IH [OF 2 this] show ?case .
qed

text \<open>
  Claim C1.  Once \<open>make_new\<close> has returned the object \<open>r\<close> for the identifier \<open>x\<close>,
  every later call on that mapper with \<open>x\<close>, after any further calls of the session
  and with any class \<open>cls'\<close> and arguments \<open>args'\<close>, returns \<open>r\<close> again and leaves
  the mapper and the world as they were: no constructor call is counted, no object is
  made, and the list of the system is not appended to.
\<close>

theorem make_new_identity_stable:
  assumes "make_new m cls x args w = Inr (r, m1, w1)"
    and "make_new_each m1 calls w1 = Inr (m2, w2)"
  shows "make_new m2 cls' x args' w2 = Inr (r, m2, w2)"
proof -
  from assms(1) have "obj_by_id m1 x = Some r" by (rule make_new_stores)
  with assms(2) have "obj_by_id m2 x = Some r" by (rule make_new_each_keeps)
  then show ?thesis by (simp add: make_new_def)
qed

text \<open>
  The theorem on \<open>test_id_mapper\<close>: \<open>ID1\<close> is made as a \<open>MockObject\<close>, then
  \<open>ID2\<close>, then \<open>ID1\<close> is asked for again as a \<open>Software\<close>.
\<close>

theorem make_new_identity_stable_witness:
  "\<exists>m1 w1 m2 w2.
     make_new (IDMapper_init 7) MockObject (PyStr ''ID1'') [PyStr ''1'', PyStr ''2'']
       empty_world = Inr (0, m1, w1) \<and>
     make_new_each m1 [(MockObject, PyStr ''ID2'', [PyStr ''5'', PyStr ''6''])] w1
       = Inr (m2, w2) \<and>
     make_new m2 Software (PyStr ''ID1'') [PyNone, PyNone, PyNone, PyNone] w2
       = Inr (0, m2, w2) \<and>
     lists w2 7 = [0, 1] \<and> constructed w2 = 2"
proof -
  obtain m1 w1 where 1:
    "make_new (IDMapper_init 7) MockObject (PyStr ''ID1'') [PyStr ''1'', PyStr ''2'']
       empty_world = Inr (0, m1, w1)"
    and m1: "m1 = \<lparr>system_list = 7, obj_by_id = [PyStr ''ID1'' \<mapsto> 0]\<rparr>"
    and l1: "lists w1 7 = [0]" and c1: "constructed w1 = 1" and o1: "length (objects w1) = 1"
    by (simp add: make_new_def IDMapper_init_def MockObject_def empty_world_def)
  obtain m2 w2 where 2:
    "make_new_each m1 [(MockObject, PyStr ''ID2'', [PyStr ''5'', PyStr ''6''])] w1
       = Inr (m2, w2)"
    and l2: "lists w2 7 = [0, 1]" and c2: "constructed w2 = 2"
    by (simp add: make_new_def MockObject_def m1 l1 c1 o1)
  from make_new_identity_stable [OF 1 2, of Software "[PyNone, PyNone, PyNone, PyNone]"]
    1 2 l2 c2
  show ?thesis by blast
qed

section \<open>Copying the fields of a record\<close>

lemma copy_keys_absent:
  "(attr \<in> set keys \<longrightarrow> data attr = None) \<Longrightarrow> copy_keys obj data keys attr = obj attr"
  by (induction keys arbitrary: obj) (auto split: option.splits)

lemma copy_mapkeys_absent:
  "(\<forall>key. (key, attr) \<in> set mapkeys \<longrightarrow> data key = None) \<Longrightarrow>
   copy_mapkeys obj data mapkeys attr = obj attr"
  by (induction mapkeys arbitrary: obj) (auto split: option.splits)

text \<open>
  Claim C9.  \<open>_copy_if_present\<close> leaves an attribute as it was when every field that
  would be copied onto it is absent from the record: the field of the same name when the
  attribute is one of \<open>keys\<close>, and each field that \<open>mapkeys\<close> maps to it.
\<close>

theorem copy_if_present_absent:
  assumes "attr \<in> set keys \<longrightarrow> data attr = None"
    and "\<forall>key. (key, attr) \<in> set mapkeys \<longrightarrow> data key = None"
  shows "copy_if_present obj data keys mapkeys attr = obj attr"
  using assms by (simp add: copy_if_present_def copy_keys_absent copy_mapkeys_absent)

text \<open>
  The theorem on the call of \<open>test_handler_copy_if_present\<close>, for an object whose
  attributes \<open>test\<close> and \<open>y\<close> were set before.
\<close>

theorem copy_if_present_absent_witness:
  "copy_if_present [''test'' \<mapsto> PyStr ''old'', ''y'' \<mapsto> PyStr ''kept'']
     [''foo'' \<mapsto> PyStr ''bar'', ''bar'' \<mapsto> PyStr ''baz'', ''t'' \<mapsto> PyStr ''u'']
     [''test'', ''foo''] [(''bar'', ''baro''), (''x'', ''y'')] ''test'' = Some (PyStr ''old'')"
  using copy_if_present_absent [of "''test''" "[''test'', ''foo'']"
     "[''foo'' \<mapsto> PyStr ''bar'', ''bar'' \<mapsto> PyStr ''baz'', ''t'' \<mapsto> PyStr ''u'']"
     "[(''bar'', ''baro''), (''x'', ''y'')]"
     "[''test'' \<mapsto> PyStr ''old'', ''y'' \<mapsto> PyStr ''kept'']"]
  by simp

end
